theory Spec2Isabelle
  imports Main "HOL-Library.Multiset"
begin

section \<open>Byte strings and the regular expressions of qsub.py\<close>

text \<open>
  The module is written for Python 2 (it cites the Python 2 documentation of \<^verbatim>\<open>re\<close>):
  a \<^verbatim>\<open>str\<close> is a byte string, which is what \<^typ>\<open>string\<close> is. Without the
  \<^verbatim>\<open>LOCALE\<close> and \<^verbatim>\<open>UNICODE\<close> flags, \<^verbatim>\<open>\s\<close> is the class
  \<^verbatim>\<open>[ \t\n\r\f\v]\<close>, \<^verbatim>\<open>.\<close> is every character but the newline, and
  \<^verbatim>\<open>[a-zA-Z]\<close> is the ASCII letters.
\<close>

definition newline :: char where
  "newline = CHR 0x0A"

datatype cls = Space | Alpha | Dot

fun in_cls :: "cls \<Rightarrow> char \<Rightarrow> bool" where
  "in_cls Space c =
     (c = CHR '' '' \<or> c = CHR 0x09 \<or> c = CHR 0x0A \<or> c = CHR 0x0B \<or> c = CHR 0x0C \<or> c = CHR 0x0D)"
| "in_cls Alpha c =
     ((65 \<le> (of_char c :: nat) \<and> (of_char c :: nat) \<le> 90) \<or>
      (97 \<le> (of_char c :: nat) \<and> (of_char c :: nat) \<le> 122))"
| "in_cls Dot c = (c \<noteq> CHR 0x0A)"

text \<open>
  The two patterns of the module are sequences of the following atoms. \<open>Bol\<close> and
  \<open>Eol\<close> are \<^verbatim>\<open>^\<close> and \<^verbatim>\<open>$\<close> under \<^verbatim>\<open>re.MULTILINE\<close>; \<open>Lit\<close> is the
  job identifier that \<^verbatim>\<open>format\<close> pastes into the pattern, which the regular
  expression reads as itself when it is made of letters and digits; \<open>One k\<close> is
  one character of the class, \<open>Star k\<close> the greedy \<^verbatim>\<open>k*\<close>, and \<open>GroupPlus k\<close>
  the capturing group \<^verbatim>\<open>(k+)\<close>. \<open>GroupStar\<close> is the rest of a group that has
  taken its first character; no pattern is written with it.
\<close>

datatype atom = Bol | Eol | Lit string | One cls | Star cls | GroupPlus cls | GroupStar cls

text \<open>
  \<open>match_here as prev s\<close> matches the atoms at the front of \<open>s\<close>, where \<open>prev\<close>
  is the character before \<open>s\<close> in the subject (\<open>None\<close> at its start). It is the
  backtracking search of \<^verbatim>\<open>re\<close>: a starred class first takes one more character,
  and gives it back only when the rest of the pattern fails after it. The result is the
  matched text and the text of group 1.
\<close>

fun match_here :: "atom list \<Rightarrow> char option \<Rightarrow> string \<Rightarrow> (string \<times> string option) option" where
  "match_here [] prev s = Some ([], None)"
| "match_here (Bol # as) prev s =
     (if prev = None \<or> prev = Some newline then match_here as prev s else None)"
| "match_here (Eol # as) prev s =
     (if s = [] \<or> hd s = newline then match_here as prev s else None)"
| "match_here (Lit [] # as) prev s = match_here as prev s"
| "match_here (Lit (l # ls) # as) prev [] = None"
| "match_here (Lit (l # ls) # as) prev (c # cs) =
     (if c = l then
        (case match_here (Lit ls # as) (Some c) cs of
           Some (m, g) \<Rightarrow> Some (c # m, g)
         | None \<Rightarrow> None)
      else None)"
| "match_here (One k # as) prev [] = None"
| "match_here (One k # as) prev (c # cs) =
     (if in_cls k c then
        (case match_here as (Some c) cs of
           Some (m, g) \<Rightarrow> Some (c # m, g)
         | None \<Rightarrow> None)
      else None)"
| "match_here (Star k # as) prev [] = match_here as prev []"
| "match_here (Star k # as) prev (c # cs) =
     (if in_cls k c then
        (case match_here (Star k # as) (Some c) cs of
           Some (m, g) \<Rightarrow> Some (c # m, g)
         | None \<Rightarrow> match_here as prev (c # cs))
      else match_here as prev (c # cs))"
| "match_here (GroupPlus k # as) prev [] = None"
| "match_here (GroupPlus k # as) prev (c # cs) =
     (if in_cls k c then
        (case match_here (GroupStar k # as) (Some c) cs of
           Some (m, g) \<Rightarrow> Some (c # m, Some (c # (case g of Some t \<Rightarrow> t | None \<Rightarrow> [])))
         | None \<Rightarrow> None)
      else None)"
| "match_here (GroupStar k # as) prev [] =
     (case match_here as prev [] of
        Some (m, g) \<Rightarrow> Some (m, Some [])
      | None \<Rightarrow> None)"
| "match_here (GroupStar k # as) prev (c # cs) =
     (if in_cls k c then
        (case match_here (GroupStar k # as) (Some c) cs of
           Some (m, g) \<Rightarrow> Some (c # m, Some (c # (case g of Some t \<Rightarrow> t | None \<Rightarrow> [])))
         | None \<Rightarrow>
             (case match_here as prev (c # cs) of
                Some (m, g) \<Rightarrow> Some (m, Some [])
              | None \<Rightarrow> None))
      else
        (case match_here as prev (c # cs) of
           Some (m, g) \<Rightarrow> Some (m, Some [])
         | None \<Rightarrow> None))"

text \<open>\<^verbatim>\<open>re.search\<close>: the match at the leftmost position that has one.\<close>

fun search :: "atom list \<Rightarrow> char option \<Rightarrow> string \<Rightarrow> (string \<times> string option) option" where
  "search as prev [] = match_here as prev []"
| "search as prev (c # cs) =
     (case match_here as prev (c # cs) of
        Some r \<Rightarrow> Some r
      | None \<Rightarrow> search as (Some c) cs)"

text \<open>
  \<^verbatim>\<open>re.findall\<close> for a pattern without groups: the texts of the matches, found from
  left to right, each search starting where the last match ended. \<open>skip\<close> counts the
  characters of the last match that are still to be passed over.
\<close>

fun findall :: "atom list \<Rightarrow> nat \<Rightarrow> char option \<Rightarrow> string \<Rightarrow> string list" where
  "findall as skip prev [] =
     (if skip = 0 then (case match_here as prev [] of Some (m, g) \<Rightarrow> [m] | None \<Rightarrow> []) else [])"
| "findall as skip prev (c # cs) =
     (if 0 < skip then findall as (skip - 1) (Some c) cs
      else
        (case match_here as prev (c # cs) of
           Some (m, g) \<Rightarrow> m # findall as (length m - 1) (Some c) cs
         | None \<Rightarrow> findall as 0 (Some c) cs))"

subsection \<open>\<^verbatim>\<open>str\<close> of a list of byte strings\<close>

definition hex_digit :: "nat \<Rightarrow> char" where
  "hex_digit n = (if n < 10 then char_of (48 + n) else char_of (87 + n))"

definition repr_char :: "char \<Rightarrow> char \<Rightarrow> string" where
  "repr_char q c =
     (if c = q \<or> c = CHR 0x5C then [CHR 0x5C, c]
      else if c = CHR 0x09 then [CHR 0x5C, CHR ''t'']
      else if c = CHR 0x0A then [CHR 0x5C, CHR ''n'']
      else if c = CHR 0x0D then [CHR 0x5C, CHR ''r'']
      else if (of_char c :: nat) < 32 \<or> 127 \<le> (of_char c :: nat) then
        [CHR 0x5C, CHR ''x'', hex_digit ((of_char c :: nat) div 16), hex_digit ((of_char c :: nat) mod 16)]
      else [c])"

definition repr_str :: "string \<Rightarrow> string" where
  "repr_str s =
     (let q = (if CHR 0x27 \<in> set s \<and> CHR 0x22 \<notin> set s then CHR 0x22 else CHR 0x27)
      in [q] @ concat (map (repr_char q) s) @ [q])"

fun join :: "string \<Rightarrow> string list \<Rightarrow> string" where
  "join sep [] = []"
| "join sep [x] = x"
| "join sep (x # y # ys) = x @ sep @ join sep (y # ys)"

definition str_list :: "string list \<Rightarrow> string" where
  "str_list xs = ''['' @ join '', '' (map repr_str xs) @ '']''"

section \<open>The table of job states\<close>

text \<open>
  \<^verbatim>\<open>job_state_key\<close> is a \<^verbatim>\<open>defaultdict(lambda: None)\<close>: its values are a state name
  or \<^verbatim>\<open>None\<close>. Reading a key that is missing stores the key with the default value and
  returns that value, so a read returns the dictionary as it is afterwards.
\<close>

type_synonym table = "string \<rightharpoonup> string option"

definition job_state_key :: table where
  "job_state_key =
     [''Eqw'' \<mapsto> Some ''Error'', ''r'' \<mapsto> Some ''Running'', ''qw'' \<mapsto> Some ''Waiting'',
      ''t'' \<mapsto> None, ''dr'' \<mapsto> None]"

definition getitem :: "table \<Rightarrow> string \<Rightarrow> string option \<times> table" where
  "getitem d k = (case d k of Some v \<Rightarrow> (v, d) | None \<Rightarrow> (None, d(k \<mapsto> None)))"

definition str_status :: "string option \<Rightarrow> string" where
  "str_status status = (case status of None \<Rightarrow> ''None'' | Some t \<Rightarrow> t)"

definition get_state :: "string option \<Rightarrow> table \<Rightarrow> string option \<times> table" where
  "get_state status d = getitem d (str_status status)"

definition get_is_running :: "string option \<Rightarrow> bool" where
  "get_is_running st = (st = Some ''Running'')"

definition get_is_error :: "string option \<Rightarrow> bool" where
  "get_is_error st = (st = Some ''Error'')"

section \<open>The scheduler, the job objects and the log\<close>

text \<open>
  A \<^verbatim>\<open>Job\<close> is an object: the list that \<^verbatim>\<open>monitor_jobs\<close> works on holds references
  to jobs, and \<^verbatim>\<open>jobs.remove(job)\<close> compares by identity, as the class defines no
  equality. A reference is a number and \<open>objs\<close> is the store of the objects. An
  attribute that no assignment has created yet is \<open>None\<close>; \<open>status\<close> and \<open>state\<close>
  hold Python's \<^verbatim>\<open>None\<close> as \<open>Some None\<close>.
\<close>

record Job =
  job_id :: string
  name :: "string option"
  qstat_stdout :: "string option"
  entry :: "string list option"
  status :: "string option option"
  state :: "string option option"
  is_running :: "bool option"
  is_error :: "bool option"
  is_present :: "bool option"

text \<open>
  What the module does to the outside is an event: a call of \<^verbatim>\<open>present()\<close> or
  \<^verbatim>\<open>error()\<close> on a job with what it returned, \<^verbatim>\<open>sleep\<close>, a message of
  \<^verbatim>\<open>logger.error\<close>, and the command handed to \<^verbatim>\<open>tools.SubprocessCmd\<close>. The
  report of the jobs left in error state is kept as the list of its identifiers. Messages
  of the levels \<^verbatim>\<open>info\<close> and \<^verbatim>\<open>debug\<close> are left out.
\<close>

datatype event =
    CallPresent nat bool
  | CallError nat bool
  | CallRunning nat bool
  | Sleep nat
  | LogError string
  | LogErrorJobs "string list"
  | RunCommand string

text \<open>
  \<open>script\<close> is the scheduler: the text that the \<open>k\<close>-th call of \<^verbatim>\<open>qstat()\<close>
  prints. \<open>clock\<close> counts the calls made so far, \<open>table\<close> is the one global
  \<^verbatim>\<open>job_state_key\<close> that every job refers to.
\<close>

record world =
  script :: "nat \<Rightarrow> string"
  clock :: nat
  table :: table
  objs :: "nat \<Rightarrow> Job"
  trace :: "event list"

definition qstat :: "world \<Rightarrow> string \<times> world" where
  "qstat w = (script w (clock w), w\<lparr>clock := Suc (clock w)\<rparr>)"

definition emit :: "event \<Rightarrow> world \<Rightarrow> world" where
  "emit e w = w\<lparr>trace := trace w @ [e]\<rparr>"

subsection \<open>The methods of \<^verbatim>\<open>Job\<close>\<close>

text \<open>
  A method takes the reference \<open>h\<close> of its object where it reads or writes attributes.
  \<open>job_update\<close>, \<open>job_debug_update\<close> and \<open>job_init\<close> are \<^verbatim>\<open>_update\<close>,
  \<^verbatim>\<open>_debug_update\<close> and \<^verbatim>\<open>__init__\<close>. \<open>job_pattern\<close> and \<open>status_pattern\<close> are
  the patterns \<^verbatim>\<open>^\s*{0}\s.*$\<close> of \<^verbatim>\<open>get_job\<close> and
  \<^verbatim>\<open>^.*\s*{0}.*\s([a-zA-Z]+)\s.*$\<close> of \<^verbatim>\<open>get_status\<close>.
\<close>

definition job_pattern :: "string \<Rightarrow> atom list" where
  "job_pattern ident = [Bol, Star Space, Lit ident, One Space, Star Dot, Eol]"

definition status_pattern :: "string \<Rightarrow> atom list" where
  "status_pattern ident =
     [Bol, Star Dot, Star Space, Lit ident, Star Dot, One Space, GroupPlus Alpha, One Space,
      Star Dot, Eol]"

text \<open>
  \<^verbatim>\<open>if not qstat_stdout\<close> holds for the default \<^verbatim>\<open>None\<close> and for an empty text
  alike: both make \<^verbatim>\<open>get_job\<close> ask the scheduler itself.
\<close>

definition get_job :: "string \<Rightarrow> string option \<Rightarrow> world \<Rightarrow> string list \<times> world" where
  "get_job ident out w =
     (case out of
        Some (c # cs) \<Rightarrow> (findall (job_pattern ident) 0 None (c # cs), w)
      | _ \<Rightarrow> (let (txt, w1) = qstat w in (findall (job_pattern ident) 0 None txt, w1)))"

definition get_status ::
  "string \<Rightarrow> string list option \<Rightarrow> string option \<Rightarrow> world \<Rightarrow> string option \<times> world" where
  "get_status ident ent out w =
     (let (ent1, w1) = (case ent of Some (e # es) \<Rightarrow> (e # es, w) | _ \<Rightarrow> get_job ident out w)
      in (case search (status_pattern ident) None (str_list ent1) of
            Some (m, g) \<Rightarrow> (g, w1)
          | None \<Rightarrow> (None, w1)))"

definition get_is_present ::
  "string \<Rightarrow> string list option \<Rightarrow> string option \<Rightarrow> world \<Rightarrow> bool \<times> world" where
  "get_is_present ident ent out w =
     (let (ent1, w1) = (case ent of Some (e # es) \<Rightarrow> (e # es, w) | _ \<Rightarrow> get_job ident out w)
      in (ent1 \<noteq> [], w1))"

definition job_update :: "nat \<Rightarrow> world \<Rightarrow> world" where
  "job_update h w =
     (let ident = job_id (objs w h);
          (out, w1) = qstat w;
          (ent, w2) = get_job ident (Some out) w1;
          (st, w3) = get_status ident (Some ent) (Some out) w2;
          (sta, d) = get_state st (table w3);
          w4 = w3\<lparr>table := d\<rparr>;
          (pr, w5) = get_is_present ident (Some ent) (Some out) w4
      in w5\<lparr>objs := (objs w5)(h := (objs w5 h)
            \<lparr>qstat_stdout := Some out, entry := Some ent, status := Some st, state := Some sta,
             is_running := Some (get_is_running sta), is_error := Some (get_is_error sta),
             is_present := Some pr\<rparr>)\<rparr>)"

definition job_debug_update :: "nat \<Rightarrow> string \<Rightarrow> world \<Rightarrow> world" where
  "job_debug_update h out w =
     (let ident = job_id (objs w h);
          (ent, w2) = get_job ident (Some out) w;
          (st, w3) = get_status ident (Some ent) (Some out) w2;
          (sta, d) = get_state st (table w3);
          w4 = w3\<lparr>table := d\<rparr>;
          (pr, w5) = get_is_present ident (Some ent) (Some out) w4
      in w5\<lparr>objs := (objs w5)(h := (objs w5 h)
            \<lparr>qstat_stdout := Some out, entry := Some ent, status := Some st, state := Some sta,
             is_running := Some (get_is_running sta),
             is_present := Some pr\<rparr>)\<rparr>)"

definition new_job :: "string \<Rightarrow> string option \<Rightarrow> Job" where
  "new_job ident nm =
     \<lparr>job_id = ident, name = nm, qstat_stdout = None, entry = None, status = None, state = None,
      is_running = None, is_error = None, is_present = None\<rparr>"

definition job_init :: "nat \<Rightarrow> string \<Rightarrow> string option \<Rightarrow> bool \<Rightarrow> world \<Rightarrow> world" where
  "job_init h ident nm debug w =
     (let w1 = w\<lparr>objs := (objs w)(h := new_job ident nm)\<rparr>
      in if \<not> debug then job_update h w1 else w1)"

text \<open>
  The three readers refresh the object and return the attribute. \<open>job_update\<close> has set
  it by then, so that the comparison with \<open>Some True\<close> reads its value.
\<close>

definition running :: "nat \<Rightarrow> world \<Rightarrow> bool \<times> world" where
  "running h w =
     (let w1 = job_update h w; b = (is_running (objs w1 h) = Some True)
      in (b, emit (CallRunning h b) w1))"

definition error :: "nat \<Rightarrow> world \<Rightarrow> bool \<times> world" where
  "error h w =
     (let w1 = job_update h w; b = (is_error (objs w1 h) = Some True)
      in (b, emit (CallError h b) w1))"

definition present :: "nat \<Rightarrow> world \<Rightarrow> bool \<times> world" where
  "present h w =
     (let w1 = job_update h w; b = (is_present (objs w1 h) = Some True)
      in (b, emit (CallPresent h b) w1))"

section \<open>\<^verbatim>\<open>monitor_jobs\<close>\<close>

text \<open>
  Python does not type the argument \<^verbatim>\<open>jobs\<close>: the function itself tests whether it
  is a list. The values below are the ones these tests tell apart: \<^verbatim>\<open>None\<close>, a list
  or a tuple of jobs, a text, a number, and a single job that was not put into a list.
\<close>

datatype pyarg = PyNone | PyList "nat list" | PyTuple "nat list" | PyStr string | PyInt int | PyJob nat

datatype exn = TypeError | IndexError | AttributeError

fun truthy :: "pyarg \<Rightarrow> bool" where
  "truthy PyNone = False"
| "truthy (PyList xs) = (xs \<noteq> [])"
| "truthy (PyTuple xs) = (xs \<noteq> [])"
| "truthy (PyStr t) = (t \<noteq> [])"
| "truthy (PyInt n) = (n \<noteq> 0)"
| "truthy (PyJob h) = True"

fun py_len :: "pyarg \<Rightarrow> exn + nat" where
  "py_len PyNone = Inl TypeError"
| "py_len (PyList xs) = Inr (length xs)"
| "py_len (PyTuple xs) = Inr (length xs)"
| "py_len (PyStr t) = Inr (length t)"
| "py_len (PyInt n) = Inl TypeError"
| "py_len (PyJob h) = Inl TypeError"

definition sleep :: "nat \<Rightarrow> world \<Rightarrow> world" where
  "sleep n w = emit (Sleep n) w"

definition pop :: "nat \<Rightarrow> 'a list \<Rightarrow> exn + ('a \<times> 'a list)" where
  "pop i xs = (if i < length xs then Inr (xs ! i, take i xs @ drop (Suc i) xs) else Inl IndexError)"

text \<open>
  One pass of \<^verbatim>\<open>for i, job in enumerate(jobs)\<close>. The iterator of a list keeps an
  index and, at each step, yields the element at that index of the list as it is then,
  or stops when the index has reached its length; \<open>i\<close> is that index and the counter of
  \<^verbatim>\<open>enumerate\<close> at once. \<open>jobs\<close> is the content of the list object that the caller
  passed: the loop never rebinds the name, it only removes elements.
\<close>

function for_jobs :: "nat \<Rightarrow> nat list \<Rightarrow> nat list \<Rightarrow> world \<Rightarrow> (exn + nat list \<times> nat list) \<times> world" where
  "for_jobs i jobs err_jobs w =
     (if i < length jobs then
        (let job = jobs ! i;
             pw = present job w;
             jobs1 = (if \<not> fst pw then remove1 job jobs else jobs);
             ew = error job (snd pw)
         in if fst ew then
              (case pop i jobs1 of
                 Inl x \<Rightarrow> (Inl x, snd ew)
               | Inr (j, jobs2) \<Rightarrow> for_jobs (Suc i) jobs2 (err_jobs @ [j]) (snd ew))
            else for_jobs (Suc i) jobs1 err_jobs (snd ew))
      else (Inr (jobs, err_jobs), w))"
  by pat_completeness auto
termination
proof (relation "measure (\<lambda>(i, jobs, err_jobs, w). length jobs - i)")
  show "wf (measure (\<lambda>(i, jobs, err_jobs, w). length jobs - i))"
    by simp
next
  fix i :: nat and jobs :: "nat list" and err_jobs :: "nat list" and w :: world
    and x xa xb xc xd y xe ya
  assume "i < length jobs" and "xb = (if \<not> fst xa then remove1 x jobs else jobs)"
    and "pop i xb = Inr xd" and "(xe, ya) = xd"
  then show "((Suc i, ya, err_jobs @ [xe], snd xc), i, jobs, err_jobs, w)
      \<in> measure (\<lambda>(i, jobs, err_jobs, w). length jobs - i)"
    by (auto simp: pop_def length_remove1 split: if_splits)
next
  fix i :: nat and jobs :: "nat list" and err_jobs :: "nat list" and w :: world
    and x xa xb xc
  assume "i < length jobs" and "xb = (if \<not> fst xa then remove1 x jobs else jobs)"
  then show "((Suc i, xb, err_jobs, snd xc), i, jobs, err_jobs, w)
      \<in> measure (\<lambda>(i, jobs, err_jobs, w). length jobs - i)"
    by (auto simp: length_remove1)
qed

text \<open>
  The \<^verbatim>\<open>while\<close> loop may run for ever, so it is given fuel: one unit for each test of
  its condition. \<open>None\<close> says that the fuel was not enough.
\<close>

fun while_jobs ::
  "nat \<Rightarrow> nat \<Rightarrow> nat list \<Rightarrow> nat list \<Rightarrow> world \<Rightarrow> ((exn + nat list \<times> nat list) \<times> world) option" where
  "while_jobs 0 num_jobs jobs err_jobs w = None"
| "while_jobs (Suc fuel) num_jobs jobs err_jobs w =
     (if 0 < num_jobs then
        (let num_jobs1 = (if num_jobs \<noteq> length jobs then length jobs else num_jobs)
         in case for_jobs 0 jobs err_jobs w of
              (Inl x, w1) \<Rightarrow> Some (Inl x, w1)
            | (Inr (jobs1, err_jobs1), w1) \<Rightarrow> while_jobs fuel num_jobs1 jobs1 err_jobs1 (sleep 5 w1))
      else Some (Inr (jobs, err_jobs), w))"

text \<open>
  The part after the loop; \<open>job_ids\<close> is \<^verbatim>\<open>[job.id for job in err_jobs]\<close>.
  \<^verbatim>\<open>tools.SubprocessCmd\<close> is not part of the module: running the command is the event
  \<open>RunCommand\<close>.
\<close>

definition job_ids :: "world \<Rightarrow> nat list \<Rightarrow> string list" where
  "job_ids w hs = map (\<lambda>h. job_id (objs w h)) hs"

definition kill_jobs :: "nat list \<Rightarrow> bool \<Rightarrow> world \<Rightarrow> world" where
  "kill_jobs err_jobs kill_err w =
     (if err_jobs \<noteq> [] then
        (let w1 = emit (LogErrorJobs (job_ids w err_jobs)) w
         in if kill_err then
              emit (RunCommand (''qdel '' @ join '' '' (job_ids w1 err_jobs))) w1
            else w1)
      else w)"

text \<open>
  What a call of \<^verbatim>\<open>monitor_jobs\<close> ends with: \<open>Rejected\<close> is one of the two early
  returns, \<open>Finished jobs err_jobs\<close> the return at the end, with the content of the
  caller's list and of \<^verbatim>\<open>err_jobs\<close> at that time; \<open>Inl\<close> is an exception that
  leaves the function.
\<close>

datatype outcome = Rejected | Finished "nat list" "nat list"

definition not_a_list :: string where
  "not_a_list = [CHR 0x22] @ ''jobs'' @ [CHR 0x22] @ '' passed is not a list''"

definition monitor_jobs :: "nat \<Rightarrow> pyarg \<Rightarrow> bool \<Rightarrow> world \<Rightarrow> ((exn + outcome) \<times> world) option" where
  "monitor_jobs fuel jobs kill_err w =
     (if \<not> truthy jobs then Some (Inr Rejected, emit (LogError ''No jobs to monitor'') w)
      else
        (case py_len jobs of
           Inl x \<Rightarrow> Some (Inl x, w)
         | Inr n \<Rightarrow>
             if n < 1 then Some (Inr Rejected, emit (LogError ''No jobs to monitor'') w)
             else
               (case jobs of
                  PyList xs \<Rightarrow>
                    (case while_jobs fuel (length xs) xs [] w of
                       None \<Rightarrow> None
                     | Some (Inl x, w1) \<Rightarrow> Some (Inl x, w1)
                     | Some (Inr (jobs1, err_jobs1), w1) \<Rightarrow>
                         Some (Inr (Finished jobs1 err_jobs1), kill_jobs err_jobs1 kill_err w1))
                | _ \<Rightarrow> Some (Inr Rejected, emit (LogError not_a_list) w))))"

subsection \<open>The older \<^verbatim>\<open>get_job_status\<close>\<close>

text \<open>
  The module keeps an older function for the status of a job. It matches its pattern
  \<^verbatim>\<open>^.*{0}.*\s([a-zA-Z]+)\s.*$\<close> against the listing itself, not against the text of a
  list of entries, and it calls \<^verbatim>\<open>group(1)\<close> on the result of the search without
  testing it, which raises \<^verbatim>\<open>AttributeError\<close> when nothing matched.
\<close>

definition job_status_pattern :: "string \<Rightarrow> atom list" where
  "job_status_pattern ident =
     [Bol, Star Dot, Lit ident, Star Dot, One Space, GroupPlus Alpha, One Space, Star Dot, Eol]"

definition get_job_status :: "string \<Rightarrow> string option \<Rightarrow> world \<Rightarrow> (exn + string option) \<times> world" where
  "get_job_status ident out w =
     (let (lst, w1) = (case out of Some (c # cs) \<Rightarrow> (c # cs, w) | _ \<Rightarrow> qstat w)
      in (case search (job_status_pattern ident) None lst of
            Some (m, g) \<Rightarrow> (Inr g, w1)
          | None \<Rightarrow> (Inl AttributeError, w1)))"

section \<open>What the properties are stated with\<close>

text \<open>The commands that a trace has run, in their order.\<close>

fun commands :: "event list \<Rightarrow> string list" where
  "commands [] = []"
| "commands (RunCommand c # es) = c # commands es"
| "commands (e # es) = commands es"

text \<open>
  The jobs that \<^verbatim>\<open>present()\<close> has found absent in a trace, one for each such call, in
  their order.
\<close>

fun absent_handles :: "event list \<Rightarrow> nat list" where
  "absent_handles [] = []"
| "absent_handles (CallPresent h b # es) = (if b then absent_handles es else h # absent_handles es)"
| "absent_handles (e # es) = absent_handles es"

text \<open>The table after the statuses \<open>prior\<close> have been classified, in that order.\<close>

definition classified :: "string option list \<Rightarrow> table" where
  "classified prior = foldl (\<lambda>d s. snd (get_state s d)) job_state_key prior"

text \<open>
  A function between two worlds keeps the \<open>frame\<close> when all it may have done is ask the
  scheduler.
\<close>

definition frame :: "world \<Rightarrow> world \<Rightarrow> bool" where
  "frame w w' =
     (trace w' = trace w \<and> objs w' = objs w \<and> table w' = table w \<and> script w' = script w)"

text \<open>
  The world of the examples: no call of \<^verbatim>\<open>qstat\<close> made yet, the table as the module
  creates it, and at each reference a job as \<^verbatim>\<open>Job(id, debug = True)\<close> makes it. In
  \<open>two_jobs\<close> the job at reference 0 has the identifier 7 and every other one 8.
\<close>

definition initial_world :: "(nat \<Rightarrow> string) \<Rightarrow> (nat \<Rightarrow> string) \<Rightarrow> world" where
  "initial_world sc ids =
     \<lparr>script = sc, clock = 0, table = job_state_key, objs = (\<lambda>h. new_job (ids h) None), trace = []\<rparr>"

definition two_jobs :: "nat \<Rightarrow> string" where
  "two_jobs h = (if h = 0 then ''7'' else ''8'')"

text \<open>
  What the status parser finds is stated with the functions below. A text is
  \<open>one_line\<close> when it holds no newline. \<open>token_at s\<close> is the token that stands at
  the front of \<open>s\<close>: a whitespace character, then letters, as many as there are, then
  a whitespace character again; the token is the letters. \<open>last_token s\<close> is the token
  that starts latest in \<open>s\<close>, \<open>after_first l s\<close> is what follows the first place
  where \<open>l\<close> stands in \<open>s\<close>, and \<open>last_token_after l s\<close> is the last token after
  that place.
\<close>

definition one_line :: "string \<Rightarrow> bool" where
  "one_line s = (\<forall>c \<in> set s. in_cls Dot c)"

fun token_at :: "string \<Rightarrow> string option" where
  "token_at [] = None"
| "token_at (c # s) =
     (if in_cls Space c \<and> takeWhile (in_cls Alpha) s \<noteq> [] \<and> dropWhile (in_cls Alpha) s \<noteq> []
         \<and> in_cls Space (hd (dropWhile (in_cls Alpha) s))
      then Some (takeWhile (in_cls Alpha) s) else None)"

fun last_token :: "string \<Rightarrow> string option" where
  "last_token [] = None"
| "last_token (c # cs) = (case last_token cs of Some t \<Rightarrow> Some t | None \<Rightarrow> token_at (c # cs))"

fun after_first :: "string \<Rightarrow> string \<Rightarrow> string option" where
  "after_first l [] = (if l = [] then Some [] else None)"
| "after_first l (c # cs) =
     (if take (length l) (c # cs) = l then Some (drop (length l) (c # cs)) else after_first l cs)"

definition last_token_after :: "string \<Rightarrow> string \<Rightarrow> string option" where
  "last_token_after l s = (case after_first l s of None \<Rightarrow> None | Some r \<Rightarrow> last_token r)"

text \<open>
  The first field of an entry, as \<^verbatim>\<open>split()\<close> would give it, and the identifiers that
  the regular expressions read as themselves: not empty, letters and digits only.
\<close>

definition first_field :: "string \<Rightarrow> string" where
  "first_field e = takeWhile (\<lambda>c. \<not> in_cls Space c) (dropWhile (in_cls Space) e)"

definition plain_id :: "string \<Rightarrow> bool" where
  "plain_id ident =
     (ident \<noteq> [] \<and>
      list_all (\<lambda>c. in_cls Alpha c \<or> (48 \<le> (of_char c :: nat) \<and> (of_char c :: nat) \<le> 57)) ident)"

text \<open>
  Three functions that only the proofs use. \<open>star_last k F s\<close> is what a starred class
  \<open>k\<close> in front of a pattern finds in \<open>s\<close> when \<open>F\<close> is what that pattern finds;
  \<open>at_id l s\<close> is the last token of \<open>s\<close> after \<open>l\<close> at its front; \<open>whole_text\<close> is
  a match of the whole text with a group.
\<close>

fun star_last :: "cls \<Rightarrow> (string \<Rightarrow> string option) \<Rightarrow> string \<Rightarrow> string option" where
  "star_last k F [] = F []"
| "star_last k F (c # cs) =
     (if in_cls k c then (case star_last k F cs of Some t \<Rightarrow> Some t | None \<Rightarrow> F (c # cs))
      else F (c # cs))"

definition at_id :: "string \<Rightarrow> string \<Rightarrow> string option" where
  "at_id l s = (if take (length l) s = l then last_token (drop (length l) s) else None)"

definition whole_text :: "string \<Rightarrow> string option \<Rightarrow> (string \<times> string option) option" where
  "whole_text s r = map_option (\<lambda>t. (s, Some t)) r"

section \<open>The state classifier\<close>

lemma getitem_fst: "fst (getitem d k) = (case d k of Some v \<Rightarrow> v | None \<Rightarrow> None)"
  by (simp add: getitem_def split: option.splits)

lemma getitem_snd: "snd (getitem d k) = (if k \<in> dom d then d else d(k \<mapsto> None))"
  by (auto simp: getitem_def split: option.splits)

lemma getitem_lookup: "fst (getitem (snd (getitem d k)) k') = fst (getitem d k')"
  by (simp add: getitem_fst getitem_snd dom_def split: option.splits)

lemma classified_lookup: "fst (getitem (classified prior) k) = fst (getitem job_state_key k)"
proof (induction prior rule: rev_induct)
  case Nil
  show ?case by (simp add: classified_def)
next
  case (snoc s prior)
  have "classified (prior @ [s]) = snd (getitem (classified prior) (str_status s))"
    by (simp add: classified_def get_state_def)
  then show ?case using snoc by (simp add: getitem_lookup)
qed

text \<open>
  C4. The state that \<^verbatim>\<open>get_state\<close> gives for a raw status is fixed by the table of the
  module, whatever has been classified before: \<^verbatim>\<open>r\<close> is Running, \<^verbatim>\<open>qw\<close> is Waiting,
  \<^verbatim>\<open>Eqw\<close> is Error, and every other status, \<^verbatim>\<open>t\<close>, \<^verbatim>\<open>dr\<close> and the absent
  status \<open>None\<close> among them, is Python's \<^verbatim>\<open>None\<close>, the state that the specification
  calls Unknown.
\<close>

theorem classification_table:
  "fst (get_state tok (classified prior)) =
     (if tok = Some ''r'' then Some ''Running''
      else if tok = Some ''qw'' then Some ''Waiting''
      else if tok = Some ''Eqw'' then Some ''Error''
      else None)"
proof -
  have "fst (get_state tok (classified prior)) = fst (getitem job_state_key (str_status tok))"
    by (simp add: get_state_def classified_lookup)
  also have "\<dots> = (if tok = Some ''r'' then Some ''Running''
      else if tok = Some ''qw'' then Some ''Waiting''
      else if tok = Some ''Eqw'' then Some ''Error''
      else None)"
    by (cases tok) (auto simp: getitem_fst job_state_key_def str_status_def)
  finally show ?thesis .
qed

text \<open>
  C5, as the specification states it, fails: classifying the absent status stores the key
  \<^verbatim>\<open>'None'\<close> in the table, which is then another table than before.
\<close>

theorem classification_adds_key:
  "snd (get_state None job_state_key) \<noteq> job_state_key"
proof
  assume "snd (get_state None job_state_key) = job_state_key"
  then have "snd (get_state None job_state_key) ''None'' = job_state_key ''None''" by simp
  then show False
    by (simp add: get_state_def getitem_def str_status_def job_state_key_def)
qed

text \<open>
  C5, amended. Classifying a status leaves the table as it is when the status, as
  \<^verbatim>\<open>str\<close> writes it, is one of its keys, and otherwise adds that key with the value
  \<^verbatim>\<open>None\<close>; in both cases every status is classified afterwards as it was before.
\<close>

theorem classification_frame:
  "snd (get_state tok d) = (if str_status tok \<in> dom d then d else d(str_status tok \<mapsto> None))
   \<and> fst (get_state tok' (snd (get_state tok d))) = fst (get_state tok' d)"
proof
  show "snd (get_state tok d) = (if str_status tok \<in> dom d then d else d(str_status tok \<mapsto> None))"
    by (simp add: get_state_def getitem_snd)
  show "fst (get_state tok' (snd (get_state tok d))) = fst (get_state tok' d)"
    by (simp add: get_state_def getitem_lookup)
qed

section \<open>The status parser\<close>

lemma one_line_Cons: "one_line (c # cs) = (c \<noteq> CHR 0x0A \<and> one_line cs)"
  by (simp add: one_line_def)

lemma alpha_not_space: "in_cls Alpha c \<Longrightarrow> \<not> in_cls Space c"
  by (auto)

lemma tail_dot: "one_line s \<Longrightarrow> match_here [Star Dot, Eol] prev s = Some (s, None)"
  by (induction s arbitrary: prev) (auto simp: one_line_Cons)

lemma tail_space:
  "one_line s \<Longrightarrow> match_here [One Space, Star Dot, Eol] prev s =
     (case s of [] \<Rightarrow> None | c # cs \<Rightarrow> if in_cls Space c then Some (s, None) else None)"
  by (cases s) (auto simp: one_line_Cons tail_dot simp del: in_cls.simps)

lemma group_rest:
  "one_line s \<Longrightarrow> match_here [GroupStar Alpha, One Space, Star Dot, Eol] prev s =
     (if dropWhile (in_cls Alpha) s \<noteq> [] \<and> in_cls Space (hd (dropWhile (in_cls Alpha) s))
      then Some (s, Some (takeWhile (in_cls Alpha) s)) else None)"
proof (induction s arbitrary: prev)
  case Nil
  then show ?case by simp
next
  case (Cons c cs)
  then have cs: "one_line cs" by (simp add: one_line_Cons)
  show ?case
  proof (cases "in_cls Alpha c")
    case True
    then have "\<not> in_cls Space c" by (rule alpha_not_space)
    then show ?thesis
      using True Cons.IH [OF cs] tail_space [OF Cons.prems]
      by (simp del: in_cls.simps)
  next
    case False
    then show ?thesis
      using tail_space [OF Cons.prems] by (simp del: in_cls.simps)
  qed
qed

lemma group_plus:
  "one_line s \<Longrightarrow> match_here [GroupPlus Alpha, One Space, Star Dot, Eol] prev s =
     (if takeWhile (in_cls Alpha) s \<noteq> [] \<and> dropWhile (in_cls Alpha) s \<noteq> []
         \<and> in_cls Space (hd (dropWhile (in_cls Alpha) s))
      then Some (s, Some (takeWhile (in_cls Alpha) s)) else None)"
proof (cases s)
  case Nil
  then show ?thesis by simp
next
  case (Cons c cs)
  assume "one_line s"
  then have cs: "one_line cs" using Cons by (simp add: one_line_Cons)
  show ?thesis
    using Cons group_rest [OF cs] by (simp del: in_cls.simps)
qed

lemma token_here:
  "one_line s \<Longrightarrow> match_here [One Space, GroupPlus Alpha, One Space, Star Dot, Eol] prev s =
     whole_text s (token_at s)"
proof (cases s)
  case Nil
  then show ?thesis by (simp add: whole_text_def)
next
  case (Cons c cs)
  assume "one_line s"
  then have cs: "one_line cs" using Cons by (simp add: one_line_Cons)
  show ?thesis
    using Cons group_plus [OF cs] by (simp add: whole_text_def del: in_cls.simps)
qed

lemma star_whole:
  assumes "\<And>p t. one_line t \<Longrightarrow> match_here as p t = whole_text t (F t)"
  shows "one_line s \<Longrightarrow> match_here (Star k # as) prev s = whole_text s (star_last k F s)"
proof (induction s arbitrary: prev)
  case Nil
  then show ?case using assms by simp
next
  case (Cons c cs)
  then have cs: "one_line cs" by (simp add: one_line_Cons)
  show ?case
    using Cons.IH [OF cs] assms [OF Cons.prems]
    by (auto simp: whole_text_def simp del: in_cls.simps split: option.splits)
qed

lemma lit_whole:
  assumes "\<And>p t. one_line t \<Longrightarrow> match_here as p t = whole_text t (F t)"
  shows "one_line s \<Longrightarrow> match_here (Lit l # as) prev s =
     whole_text s (if take (length l) s = l then F (drop (length l) s) else None)"
proof (induction l arbitrary: s prev)
  case Nil
  then show ?case using assms by simp
next
  case (Cons a l)
  show ?case
  proof (cases s)
    case Nil
    then show ?thesis by (simp add: whole_text_def)
  next
    case (Cons c cs)
    then have cs: "one_line cs" using Cons.prems by (simp add: one_line_Cons)
    show ?thesis
      using Cons Cons.IH [OF cs]
      by (auto simp: whole_text_def split: option.splits)
  qed
qed


lemma one_line_drop: "one_line s \<Longrightarrow> one_line (drop n s)"
  by (auto simp: one_line_def dest: in_set_dropD)

lemma last_token_star: "one_line s \<Longrightarrow> star_last Dot token_at s = last_token s"
  by (induction s) (auto simp: one_line_Cons split: option.splits)

lemma status_pattern_match:
  assumes "one_line s"
  shows "match_here (status_pattern l) None s = whole_text s (star_last Dot (star_last Space (at_id l)) s)"
proof -
  let ?T1 = "[One Space, GroupPlus Alpha, One Space, Star Dot, Eol]"
  have t0: "\<And>p t. one_line t \<Longrightarrow> match_here (Star Dot # ?T1) p t = whole_text t (last_token t)"
  proof -
    fix p t
    assume t: "one_line t"
    have "match_here (Star Dot # ?T1) p t = whole_text t (star_last Dot token_at t)"
      by (rule star_whole [OF _ t]) (rule token_here)
    then show "match_here (Star Dot # ?T1) p t = whole_text t (last_token t)"
      using last_token_star [OF t] by simp
  qed
  have t1: "\<And>p t. one_line t \<Longrightarrow> match_here (Lit l # Star Dot # ?T1) p t = whole_text t (at_id l t)"
  proof -
    fix p t
    assume t: "one_line t"
    show "match_here (Lit l # Star Dot # ?T1) p t = whole_text t (at_id l t)"
      unfolding at_id_def by (rule lit_whole [OF _ t]) (rule t0)
  qed
  have t2: "\<And>p t. one_line t \<Longrightarrow>
      match_here (Star Space # Lit l # Star Dot # ?T1) p t = whole_text t (star_last Space (at_id l) t)"
    by (rule star_whole) (rule t1)
  have "match_here (Star Dot # Star Space # Lit l # Star Dot # ?T1) None s
      = whole_text s (star_last Dot (star_last Space (at_id l)) s)"
    by (rule star_whole [OF _ assms]) (rule t2)
  then show ?thesis by (simp add: status_pattern_def)
qed

lemma search_bol_later:
  "one_line s \<Longrightarrow> p \<noteq> CHR 0x0A \<Longrightarrow> search (Bol # as) (Some p) s = None"
  by (induction s arbitrary: p) (auto simp: one_line_Cons newline_def)

lemma search_bol:
  "one_line s \<Longrightarrow> search (Bol # as) None s = match_here (Bol # as) None s"
  by (cases s) (auto simp: one_line_Cons search_bol_later split: option.splits)

lemma last_token_append: "last_token b = Some t \<Longrightarrow> last_token (a @ b) = Some t"
  by (induction a) auto

lemma last_token_drop: "last_token (drop n r) = Some t \<Longrightarrow> last_token r = Some t"
  using last_token_append [of "drop n r" t "take n r"] by simp

lemma after_first_drop: "after_first l s = Some r \<Longrightarrow> \<exists>n. r = drop (n + length l) s"
proof (induction s)
  case Nil
  then show ?case by (auto split: if_splits)
next
  case (Cons c cs)
  show ?case
  proof (cases "take (length l) (c # cs) = l")
    case True
    then have "r = drop (0 + length l) (c # cs)" using Cons.prems by simp
    then show ?thesis by blast
  next
    case False
    then have "after_first l cs = Some r" using Cons.prems by simp
    then obtain n where "r = drop (n + length l) cs" using Cons.IH by blast
    then have "r = drop (Suc n + length l) (c # cs)" by simp
    then show ?thesis by blast
  qed
qed

lemma last_token_after_Cons: "last_token_after l cs = Some t \<Longrightarrow> last_token_after l (c # cs) = Some t"
proof -
  assume f: "last_token_after l cs = Some t"
  then obtain r where r: "after_first l cs = Some r" and t: "last_token r = Some t"
    by (auto simp: last_token_after_def split: option.splits)
  show ?thesis
  proof (cases "take (length l) (c # cs) = l")
    case False
    then show ?thesis using f by (simp add: last_token_after_def)
  next
    case True
    obtain n where n: "r = drop (n + length l) cs" using after_first_drop [OF r] by blast
    have "r = drop (Suc n) (drop (length l) (c # cs))"
      using n by (simp add: add.commute)
    then have "last_token (drop (length l) (c # cs)) = Some t"
      using t last_token_drop [of "Suc n" "drop (length l) (c # cs)" t] by simp
    then show ?thesis using True by (simp add: last_token_after_def)
  qed
qed

lemma last_token_after_None_at_id: "last_token_after l s = None \<Longrightarrow> at_id l (drop n s) = None"
proof (induction s arbitrary: n)
  case Nil
  then show ?case by (simp add: at_id_def)
next
  case (Cons c cs)
  show ?case
  proof (cases n)
    case 0
    then show ?thesis using Cons.prems by (auto simp: at_id_def last_token_after_def)
  next
    case (Suc m)
    have "last_token_after l cs = None"
    proof (cases "last_token_after l cs")
      case None
      then show ?thesis .
    next
      case (Some t)
      then show ?thesis using last_token_after_Cons [of l cs t c] Cons.prems by simp
    qed
    then show ?thesis using Cons.IH Suc by simp
  qed
qed

lemma star_last_None: "(\<And>n. F (drop n s) = None) \<Longrightarrow> star_last k F s = None"
proof (induction s)
  case Nil
  then show ?case using Nil [of 0] by simp
next
  case (Cons c cs)
  have "\<And>n. F (drop n cs) = None" using Cons.prems [of "Suc _"] by simp
  then have "star_last k F cs = None" by (rule Cons.IH)
  moreover have "F (c # cs) = None" using Cons.prems [of 0] by simp
  ultimately show ?case by simp
qed

lemma last_token_after_at_id: "last_token_after l cs = None \<Longrightarrow> last_token_after l (c # cs) = at_id l (c # cs)"
  by (auto simp: last_token_after_def at_id_def)

lemma star_last_found:
  "one_line s \<Longrightarrow> star_last Dot (star_last Space (at_id l)) s = last_token_after l s"
proof (induction s)
  case Nil
  then show ?case by (simp add: last_token_after_def at_id_def)
next
  case (Cons c cs)
  then have cs: "one_line cs" and c: "in_cls Dot c" by (simp_all add: one_line_Cons)
  have ih: "star_last Dot (star_last Space (at_id l)) cs = last_token_after l cs"
    by (rule Cons.IH [OF cs])
  show ?case
  proof (cases "last_token_after l cs")
    case (Some t)
    then show ?thesis using ih c last_token_after_Cons [of l cs t c] by (simp del: in_cls.simps)
  next
    case None
    have "star_last Space (at_id l) cs = None"
      by (rule star_last_None) (rule last_token_after_None_at_id [OF None])
    then have "star_last Space (at_id l) (c # cs) = at_id l (c # cs)"
      by (simp del: in_cls.simps)
    then show ?thesis using ih c None last_token_after_at_id [OF None, of c] by (simp del: in_cls.simps)
  qed
qed

lemma search_status:
  "one_line s \<Longrightarrow> search (status_pattern l) None s = whole_text s (last_token_after l s)"
proof -
  assume s: "one_line s"
  have "search (status_pattern l) None s = match_here (status_pattern l) None s"
    using search_bol [OF s] by (simp add: status_pattern_def)
  then show ?thesis
    using status_pattern_match [OF s] star_last_found [OF s] by simp
qed

lemma hex_digit_nl: "n < 16 \<Longrightarrow> hex_digit n \<noteq> CHR 0x0A"
proof
  assume n: "n < 16" and "hex_digit n = CHR 0x0A"
  then have "(of_char (hex_digit n) :: nat) = of_char (CHR 0x0A)" by simp
  then show False using n by (simp add: hex_digit_def split: if_splits)
qed

lemma of_char_div_16: "(of_char c :: nat) div 16 < 16"
proof -
  have "(of_char c :: nat) mod 256 < 256" by simp
  then have "(of_char c :: nat) < 256" by (simp only: of_char_mod_256)
  then show ?thesis by arith
qed

lemma repr_char_nl: "q \<noteq> CHR 0x0A \<Longrightarrow> one_line (repr_char q c)"
  by (simp add: repr_char_def one_line_def hex_digit_nl of_char_div_16)

lemma one_line_append: "one_line (a @ b) = (one_line a \<and> one_line b)"
  by (auto simp: one_line_def)

lemma one_line_concat: "(\<And>x. x \<in> set xs \<Longrightarrow> one_line x) \<Longrightarrow> one_line (concat xs)"
  by (induction xs) (auto simp: one_line_append one_line_def)

lemma repr_str_nl: "one_line (repr_str s)"
proof -
  have "\<And>q. q \<noteq> CHR 0x0A \<Longrightarrow> one_line ([q] @ concat (map (repr_char q) s) @ [q])"
  proof -
    fix q :: char
    assume q: "q \<noteq> CHR 0x0A"
    have "one_line (concat (map (repr_char q) s))"
      by (rule one_line_concat) (auto simp: repr_char_nl [OF q])
    then show "one_line ([q] @ concat (map (repr_char q) s) @ [q])"
      using q by (simp add: one_line_append one_line_Cons) (simp add: one_line_def)
  qed
  then show ?thesis by (simp add: repr_str_def Let_def del: append.simps)
qed

lemma join_nl: "one_line sep \<Longrightarrow> (\<And>x. x \<in> set xs \<Longrightarrow> one_line x) \<Longrightarrow> one_line (join sep xs)"
  by (induction sep xs rule: join.induct) (auto simp: one_line_append one_line_def)

lemma str_list_nl: "one_line (str_list xs)"
proof -
  have "one_line (join '', '' (map repr_str xs))"
    by (rule join_nl) (auto simp: repr_str_nl, simp add: one_line_def)
  then show ?thesis by (simp add: str_list_def one_line_append) (simp add: one_line_def)
qed

lemma last_token_no_space: "(\<And>c. c \<in> set s \<Longrightarrow> \<not> in_cls Space c) \<Longrightarrow> last_token s = None"
  by (induction s) (auto simp del: in_cls.simps)

lemma last_token_after_no_space:
  assumes "\<And>c. c \<in> set s \<Longrightarrow> \<not> in_cls Space c"
  shows "last_token_after l s = None"
proof (cases "after_first l s")
  case None
  then show ?thesis by (simp add: last_token_after_def)
next
  case (Some r)
  then obtain n where "r = drop (n + length l) s" using after_first_drop by blast
  then have "\<And>c. c \<in> set r \<Longrightarrow> \<not> in_cls Space c"
    using assms by (auto dest: in_set_dropD)
  then have "last_token r = None" by (rule last_token_no_space)
  then show ?thesis using Some by (simp add: last_token_after_def)
qed

lemma last_token_after_empty: "last_token_after l (str_list []) = None"
  by (rule last_token_after_no_space) (auto simp: str_list_def)

lemma star_split:
  "match_here (Star k # as) prev s = Some (m, g) \<Longrightarrow>
     \<exists>a b p t. m = a @ b \<and> (\<forall>c \<in> set a. in_cls k c) \<and> match_here as p t = Some (b, g)"
proof (induction s arbitrary: prev m)
  case Nil
  then have "m = [] @ m \<and> (\<forall>c \<in> set []. in_cls k c) \<and> match_here as prev [] = Some (m, g)"
    by simp
  then show ?case by blast
next
  case (Cons c cs)
  show ?case
  proof (cases "in_cls k c \<and> match_here (Star k # as) (Some c) cs \<noteq> None")
    case True
    then obtain m' g' where r: "match_here (Star k # as) (Some c) cs = Some (m', g')" by auto
    then have m: "m = c # m'" and g: "g' = g" using Cons.prems True by simp_all
    obtain a b p t where "m' = a @ b" "\<forall>x \<in> set a. in_cls k x" "match_here as p t = Some (b, g)"
      using Cons.IH [OF r [unfolded g]] by blast
    then have "m = (c # a) @ b \<and> (\<forall>x \<in> set (c # a). in_cls k x) \<and> match_here as p t = Some (b, g)"
      using m True by simp
    then show ?thesis by blast
  next
    case False
    then have "match_here as prev (c # cs) = Some (m, g)"
      using Cons.prems by (auto split: if_splits option.splits)
    then have "m = [] @ m \<and> (\<forall>x \<in> set []. in_cls k x) \<and> match_here as prev (c # cs) = Some (m, g)"
      by simp
    then show ?thesis by blast
  qed
qed

lemma lit_split:
  "match_here (Lit l # as) prev s = Some (m, g) \<Longrightarrow>
     \<exists>b p t. m = l @ b \<and> match_here as p t = Some (b, g)"
proof (induction l arbitrary: prev s m)
  case Nil
  then show ?case by auto
next
  case (Cons a l)
  then obtain c cs where s: "s = c # cs" by (cases s) auto
  then have c: "c = a" using Cons.prems by (auto split: if_splits)
  obtain m' where r: "match_here (Lit l # as) (Some c) cs = Some (m', g)" and m: "m = c # m'"
    using Cons.prems s c by (auto split: option.splits)
  obtain b p t where "m' = l @ b" "match_here as p t = Some (b, g)"
    using Cons.IH [OF r] by blast
  then have "m = (a # l) @ b \<and> match_here as p t = Some (b, g)" using m c by simp
  then show ?case by blast
qed

lemma job_pattern_match:
  assumes "match_here (job_pattern l) prev s = Some (m, g)"
  shows "\<exists>ws c rest. m = ws @ l @ [c] @ rest \<and> (\<forall>x \<in> set ws. in_cls Space x) \<and> in_cls Space c"
proof -
  have r0: "match_here [Star Space, Lit l, One Space, Star Dot, Eol] prev s = Some (m, g)"
    using assms by (simp add: job_pattern_def split: if_splits)
  obtain ws b p t where m: "m = ws @ b" and ws: "\<forall>x \<in> set ws. in_cls Space x"
    and r1: "match_here [Lit l, One Space, Star Dot, Eol] p t = Some (b, g)"
    using star_split [OF r0] by blast
  obtain b2 p2 t2 where b: "b = l @ b2"
    and r2: "match_here [One Space, Star Dot, Eol] p2 t2 = Some (b2, g)"
    using lit_split [OF r1] by blast
  obtain c cs where t2: "t2 = c # cs" using r2 by (cases t2) auto
  then obtain b3 where "b2 = c # b3" and c: "in_cls Space c"
    using r2 by (auto split: if_splits option.splits simp del: in_cls.simps)
  then have "m = ws @ l @ [c] @ b3" using m b by simp
  then show ?thesis using ws c by blast
qed

lemma findall_set:
  "e \<in> set (findall pat skip prev s) \<Longrightarrow> \<exists>p t g. match_here pat p t = Some (e, g)"
proof (induction pat skip prev s rule: findall.induct)
  case (1 pat skip prev)
  show ?case
  proof (cases "match_here pat prev []")
    case None
    then show ?thesis using "1.prems" by (cases "skip = 0") simp_all
  next
    case (Some r)
    obtain m g where r: "r = (m, g)" by (cases r)
    have "e = m" using "1.prems" Some r by (cases "skip = 0") simp_all
    then show ?thesis using Some r by blast
  qed
next
  case (2 pat skip prev c cs)
  show ?case
  proof (cases "0 < skip")
    case True
    then show ?thesis using 2 by simp
  next
    case False
    show ?thesis
    proof (cases "match_here pat prev (c # cs)")
      case None
      then show ?thesis using 2 False by simp
    next
      case (Some r)
      obtain m g where r: "r = (m, g)" by (cases r)
      have "e = m \<or> e \<in> set (findall pat (length m - 1) (Some c) cs)"
        using "2.prems" False Some r by simp
      then show ?thesis
      proof
        assume "e = m"
        then show ?thesis using Some r by blast
      next
        assume "e \<in> set (findall pat (length m - 1) (Some c) cs)"
        then show ?thesis by (rule "2.IH"(3) [OF False Some r [symmetric]])
      qed
    qed
  qed
qed

lemma plain_not_space: "plain_id l \<Longrightarrow> x \<in> set l \<Longrightarrow> \<not> in_cls Space x"
  by (auto simp: plain_id_def list_all_iff)

lemma first_field_entry:
  assumes "plain_id l" and "\<forall>x \<in> set ws. in_cls Space x" and "in_cls Space c"
  shows "first_field (ws @ l @ [c] @ rest) = l"
proof -
  obtain a l' where l: "l = a # l'" using assms(1) by (cases l) (auto simp: plain_id_def)
  have a: "\<not> in_cls Space a" using plain_not_space [OF assms(1)] l by simp
  have "dropWhile (in_cls Space) (ws @ l @ [c] @ rest) = l @ [c] @ rest"
    using assms(2) a l by (simp add: dropWhile_append3 del: in_cls.simps)
  moreover have "takeWhile (\<lambda>c. \<not> in_cls Space c) (l @ c # rest) = l"
    using plain_not_space [OF assms(1)] assms(3) by (simp add: takeWhile_tail del: in_cls.simps)
  ultimately show ?thesis by (simp add: first_field_def)
qed

lemma get_job_findall: "\<exists>lst. fst (get_job ident out w) = findall (job_pattern ident) 0 None lst"
proof (cases out)
  case None
  then show ?thesis by (auto simp: get_job_def split: prod.splits)
next
  case (Some lst)
  then show ?thesis
    by (cases lst) (auto simp: get_job_def split: prod.splits simp del: findall.simps)
qed

lemma get_job_entries:
  assumes "plain_id ident" and "e \<in> set (fst (get_job ident out w))"
  shows "first_field e = ident"
proof -
  obtain lst where "fst (get_job ident out w) = findall (job_pattern ident) 0 None lst"
    using get_job_findall by blast
  then have "e \<in> set (findall (job_pattern ident) 0 None lst)"
    using assms(2) by simp
  then obtain p' t' g where "match_here (job_pattern ident) p' t' = Some (e, g)"
    using findall_set by blast
  then obtain ws c rest where "e = ws @ ident @ [c] @ rest" "\<forall>x \<in> set ws. in_cls Space x" "in_cls Space c"
    using job_pattern_match by blast
  then show ?thesis using first_field_entry [OF assms(1)] by simp
qed

lemma get_status_found:
  "get_status ident None out w =
     (last_token_after ident (str_list (fst (get_job ident out w))), snd (get_job ident out w))"
proof -
  obtain ents w1 where g: "get_job ident out w = (ents, w1)" by (cases "get_job ident out w")
  have "search (status_pattern ident) None (str_list ents) = whole_text (str_list ents) (last_token_after ident (str_list ents))"
    by (rule search_status) (rule str_list_nl)
  then show ?thesis
    by (cases "last_token_after ident (str_list ents)") (simp_all add: get_status_def g whole_text_def)
qed

lemma get_is_present_entries:
  "get_is_present ident None out w = (fst (get_job ident out w) \<noteq> [], snd (get_job ident out w))"
  by (simp add: get_is_present_def split: prod.splits)

lemma token_at_delimited:
  assumes "token_at s = Some t"
  shows "\<exists>c1 c2 b. s = [c1] @ t @ [c2] @ b \<and> in_cls Space c1 \<and> in_cls Space c2
     \<and> t \<noteq> [] \<and> (\<forall>x \<in> set t. in_cls Alpha x)"
proof -
  obtain c s' where s: "s = c # s'" using assms by (cases s) auto
  let ?d = "dropWhile (in_cls Alpha) s'"
  have c: "in_cls Space c" and t: "t = takeWhile (in_cls Alpha) s'" and ne: "t \<noteq> []"
    and d: "?d \<noteq> []" and h: "in_cls Space (hd ?d)"
    using assms s by (auto split: if_splits simp del: in_cls.simps)
  have "s' = t @ [hd ?d] @ tl ?d" using t d by simp
  then have "s = [c] @ t @ [hd ?d] @ tl ?d" using s by simp
  moreover have "\<forall>x \<in> set t. in_cls Alpha x" using t by (auto dest: set_takeWhileD)
  ultimately show ?thesis using c h ne by blast
qed

lemma last_token_delimited:
  "last_token s = Some t \<Longrightarrow>
     \<exists>a c1 c2 b. s = a @ [c1] @ t @ [c2] @ b \<and> in_cls Space c1 \<and> in_cls Space c2
       \<and> t \<noteq> [] \<and> (\<forall>x \<in> set t. in_cls Alpha x) \<and> last_token (t @ [c2] @ b) = None"
proof (induction s)
  case Nil
  then show ?case by simp
next
  case (Cons c cs)
  show ?case
  proof (cases "last_token cs")
    case (Some u)
    then have "last_token cs = Some t" using Cons.prems by simp
    then obtain a c1 c2 b where "cs = a @ [c1] @ t @ [c2] @ b" "in_cls Space c1" "in_cls Space c2"
      "t \<noteq> []" "\<forall>x \<in> set t. in_cls Alpha x" "last_token (t @ [c2] @ b) = None"
      using Cons.IH by blast
    then have "c # cs = (c # a) @ [c1] @ t @ [c2] @ b \<and> in_cls Space c1 \<and> in_cls Space c2
       \<and> t \<noteq> [] \<and> (\<forall>x \<in> set t. in_cls Alpha x) \<and> last_token (t @ [c2] @ b) = None"
      by simp
    then show ?thesis by blast
  next
    case None
    then have "token_at (c # cs) = Some t" using Cons.prems by simp
    then obtain c1 c2 b where f: "c # cs = [c1] @ t @ [c2] @ b" "in_cls Space c1" "in_cls Space c2"
      "t \<noteq> []" "\<forall>x \<in> set t. in_cls Alpha x"
      using token_at_delimited by blast
    then have "cs = t @ [c2] @ b" by simp
    then have "c # cs = [] @ [c1] @ t @ [c2] @ b \<and> in_cls Space c1 \<and> in_cls Space c2
       \<and> t \<noteq> [] \<and> (\<forall>x \<in> set t. in_cls Alpha x) \<and> last_token (t @ [c2] @ b) = None"
      using f None by simp
    then show ?thesis by blast
  qed
qed

lemma after_first_split: "after_first l s = Some r \<Longrightarrow> \<exists>a. s = a @ l @ r"
proof (induction s)
  case Nil
  then show ?case by (auto split: if_splits)
next
  case (Cons c cs)
  show ?case
  proof (cases "take (length l) (c # cs) = l")
    case True
    then have "r = drop (length l) (c # cs)" using Cons.prems by simp
    then have "c # cs = [] @ l @ r" using True append_take_drop_id [of "length l" "c # cs"] by simp
    then show ?thesis by blast
  next
    case False
    then have "after_first l cs = Some r" using Cons.prems by simp
    then obtain a where "cs = a @ l @ r" using Cons.IH by blast
    then have "c # cs = (c # a) @ l @ r" by simp
    then show ?thesis by blast
  qed
qed

text \<open>
  What the parser does for an identifier of letters and digits: every entry that
  \<^verbatim>\<open>get_job\<close> finds has the identifier as its first whitespace-delimited field;
  \<^verbatim>\<open>get_status\<close> returns the last token of letters between two whitespace characters
  that follows the first place of the identifier in the text of the list of all these
  entries, and \<^verbatim>\<open>None\<close> when there is no such token; \<^verbatim>\<open>get_is_present\<close> tells
  whether there is an entry; and when there is none, the status is \<^verbatim>\<open>None\<close> and the
  job is not present.
\<close>

lemma get_status_last_token:
  assumes "plain_id ident"
  shows "(\<forall>e \<in> set (fst (get_job ident out w)). first_field e = ident)
    \<and> get_status ident None out w =
        (last_token_after ident (str_list (fst (get_job ident out w))), snd (get_job ident out w))
    \<and> get_is_present ident None out w = (fst (get_job ident out w) \<noteq> [], snd (get_job ident out w))
    \<and> (fst (get_job ident out w) = [] \<longrightarrow>
          fst (get_status ident None out w) = None \<and> \<not> fst (get_is_present ident None out w))"
  using get_job_entries [OF assms] last_token_after_empty [of ident]
  by (simp add: get_status_found get_is_present_entries)

text \<open>
  C6 fails when several entries match. \<^verbatim>\<open>get_status\<close> matches its pattern against
  the text of the whole list of entries, which is one line, and the \<^verbatim>\<open>.*\<close> of the
  pattern go as far as they can: the status is the last token of that line. For the
  listing of the two lines \<^verbatim>\<open>7 r 1\<close> and \<^verbatim>\<open>7 Eqw 1\<close>, both are entries of job 7,
  the status read from the first entry alone is \<^verbatim>\<open>r\<close>, and the status returned is
  \<^verbatim>\<open>Eqw\<close>, that of the second entry. The older \<^verbatim>\<open>get_job_status\<close> of the module,
  which searches the listing line by line, returns \<^verbatim>\<open>r\<close> for the same listing.
\<close>

theorem status_of_last_entry:
  "fst (get_job ''7'' (Some (''7 r 1'' @ [newline] @ ''7 Eqw 1'')) (initial_world (\<lambda>k. []) two_jobs))
     = [''7 r 1'', ''7 Eqw 1'']
   \<and> fst (get_status ''7'' (Some [''7 r 1'']) None (initial_world (\<lambda>k. []) two_jobs)) = Some ''r''
   \<and> fst (get_status ''7'' None (Some (''7 r 1'' @ [newline] @ ''7 Eqw 1''))
        (initial_world (\<lambda>k. []) two_jobs)) = Some ''Eqw''
   \<and> fst (get_job_status ''7'' (Some (''7 r 1'' @ [newline] @ ''7 Eqw 1''))
        (initial_world (\<lambda>k. []) two_jobs)) = Inr (Some ''r'')"
  by code_simp

section \<open>The job handle\<close>

lemma commands_append: "commands (xs @ ys) = commands xs @ commands ys"
  by (induction xs rule: commands.induct) auto

lemma frame_refl: "frame w w"
  by (simp add: frame_def)

lemma frame_trans: "frame w w1 \<Longrightarrow> frame w1 w2 \<Longrightarrow> frame w w2"
  by (simp add: frame_def)

lemma qstat_frame: "frame w (snd (qstat w))"
  by (simp add: qstat_def frame_def)

lemma get_job_frame: "frame w (snd (get_job ident out w))"
  by (auto simp: get_job_def qstat_def frame_def split: option.splits list.splits prod.splits)

lemma get_status_frame: "frame w (snd (get_status ident ent out w))"
  using get_job_frame [of w ident out]
  by (auto simp: get_status_def frame_def Let_def split: option.splits list.splits prod.splits)

lemma get_is_present_frame: "frame w (snd (get_is_present ident ent out w))"
  using get_job_frame [of w ident out]
  by (auto simp: get_is_present_def frame_def Let_def split: option.splits list.splits prod.splits)

lemma job_update_shape:
  obtains w5 upd where
    "job_update h w = w5\<lparr>objs := (objs w5)(h := upd (objs w5 h))\<rparr>"
    "trace w5 = trace w" "objs w5 = objs w" "script w5 = script w"
    "\<And>j. job_id (upd j) = job_id j"
proof -
  let ?ident = "job_id (objs w h)"
  obtain out w1 where q1: "qstat w = (out, w1)" by (cases "qstat w")
  obtain ent w2 where q2: "get_job ?ident (Some out) w1 = (ent, w2)"
    by (cases "get_job ?ident (Some out) w1")
  obtain st w3 where q3: "get_status ?ident (Some ent) (Some out) w2 = (st, w3)"
    by (cases "get_status ?ident (Some ent) (Some out) w2")
  obtain sta d where q4: "get_state st (table w3) = (sta, d)"
    by (cases "get_state st (table w3)")
  obtain pr w5 where q5: "get_is_present ?ident (Some ent) (Some out) (w3\<lparr>table := d\<rparr>) = (pr, w5)"
    by (cases "get_is_present ?ident (Some ent) (Some out) (w3\<lparr>table := d\<rparr>)")
  let ?upd = "\<lambda>j. j\<lparr>qstat_stdout := Some out, entry := Some ent, status := Some st, state := Some sta,
             is_running := Some (get_is_running sta), is_error := Some (get_is_error sta),
             is_present := Some pr\<rparr>"
  have f1: "frame w w1" using qstat_frame [of w] q1 by simp
  have f2: "frame w1 w2" using get_job_frame [of w1 ?ident "Some out"] q2 by simp
  have f3: "frame w2 w3" using get_status_frame [of w2 ?ident "Some ent" "Some out"] q3 by simp
  have f5: "trace w5 = trace w3 \<and> objs w5 = objs w3 \<and> script w5 = script w3"
    using get_is_present_frame [of "w3\<lparr>table := d\<rparr>" ?ident "Some ent" "Some out"] q5
    by (simp add: frame_def)
  have "job_update h w = w5\<lparr>objs := (objs w5)(h := ?upd (objs w5 h))\<rparr>"
    by (simp add: job_update_def Let_def q1 q2 q3 q4 q5)
  moreover have "trace w5 = trace w" "objs w5 = objs w" "script w5 = script w"
    using f1 f2 f3 f5 by (simp_all add: frame_def)
  moreover have "\<And>j. job_id (?upd j) = job_id j" by simp
  ultimately show thesis using that [of w5 ?upd] by blast
qed

lemma job_update_trace: "trace (job_update h w) = trace w"
  by (rule job_update_shape [of h w]) simp

lemma job_update_job_id: "job_id (objs (job_update h w) h') = job_id (objs w h')"
  by (rule job_update_shape [of h w]) simp

text \<open>
  After a refresh the three attributes exist, so that the readers \<open>running\<close>,
  \<open>error\<close> and \<open>present\<close> return their values.
\<close>

lemma job_update_sets:
  "is_running (objs (job_update h w) h) \<noteq> None
   \<and> is_error (objs (job_update h w) h) \<noteq> None
   \<and> is_present (objs (job_update h w) h) \<noteq> None"
proof -
  let ?ident = "job_id (objs w h)"
  obtain out w1 where q1: "qstat w = (out, w1)" by (cases "qstat w")
  obtain ent w2 where q2: "get_job ?ident (Some out) w1 = (ent, w2)"
    by (cases "get_job ?ident (Some out) w1")
  obtain st w3 where q3: "get_status ?ident (Some ent) (Some out) w2 = (st, w3)"
    by (cases "get_status ?ident (Some ent) (Some out) w2")
  obtain sta d where q4: "get_state st (table w3) = (sta, d)"
    by (cases "get_state st (table w3)")
  obtain pr w5 where q5: "get_is_present ?ident (Some ent) (Some out) (w3\<lparr>table := d\<rparr>) = (pr, w5)"
    by (cases "get_is_present ?ident (Some ent) (Some out) (w3\<lparr>table := d\<rparr>)")
  show ?thesis
    by (simp add: job_update_def Let_def q1 q2 q3 q4 q5)
qed

lemma job_debug_update_is_error:
  "is_error (objs (job_debug_update h out w) h) = is_error (objs w h)"
proof -
  let ?ident = "job_id (objs w h)"
  obtain ent w2 where q2: "get_job ?ident (Some out) w = (ent, w2)"
    by (cases "get_job ?ident (Some out) w")
  obtain st w3 where q3: "get_status ?ident (Some ent) (Some out) w2 = (st, w3)"
    by (cases "get_status ?ident (Some ent) (Some out) w2")
  obtain sta d where q4: "get_state st (table w3) = (sta, d)"
    by (cases "get_state st (table w3)")
  obtain pr w5 where q5: "get_is_present ?ident (Some ent) (Some out) (w3\<lparr>table := d\<rparr>) = (pr, w5)"
    by (cases "get_is_present ?ident (Some ent) (Some out) (w3\<lparr>table := d\<rparr>)")
  have f2: "frame w w2" using get_job_frame [of w ?ident "Some out"] q2 by simp
  have f3: "frame w2 w3" using get_status_frame [of w2 ?ident "Some ent" "Some out"] q3 by simp
  have f5: "objs w5 = objs w3"
    using get_is_present_frame [of "w3\<lparr>table := d\<rparr>" ?ident "Some ent" "Some out"] q5
    by (simp add: frame_def)
  have "objs w5 = objs w" using f2 f3 f5 by (simp add: frame_def)
  then show ?thesis
    by (simp add: job_debug_update_def Let_def q2 q3 q4 q5)
qed

text \<open>
  C7 fails on \<^verbatim>\<open>_debug_update\<close>, which assigns \<^verbatim>\<open>is_running\<close> and \<^verbatim>\<open>is_present\<close>
  as \<^verbatim>\<open>_update\<close> does and leaves \<^verbatim>\<open>is_error\<close> out. A job made while the scheduler
  lists it as running, and then refreshed against a listing that has it in \<^verbatim>\<open>Eqw\<close>,
  has the state Error and still \<^verbatim>\<open>is_error = False\<close>.
\<close>

theorem debug_update_stale_is_error:
  "state (objs (job_debug_update 0 ''7 Eqw x''
       (job_init 0 ''7'' None False (initial_world (\<lambda>k. ''7 r x'') two_jobs))) 0) = Some (Some ''Error'')
   \<and> is_error (objs (job_debug_update 0 ''7 Eqw x''
       (job_init 0 ''7'' None False (initial_world (\<lambda>k. ''7 r x'') two_jobs))) 0) = Some False"
  by code_simp

section \<open>The monitor\<close>

declare for_jobs.simps [simp del]

lemma present_trace: "trace (snd (present h w)) = trace w @ [CallPresent h (fst (present h w))]"
  by (simp add: present_def Let_def emit_def job_update_trace)

lemma error_trace: "trace (snd (error h w)) = trace w @ [CallError h (fst (error h w))]"
  by (simp add: error_def Let_def emit_def job_update_trace)

lemma present_job_id: "job_id (objs (snd (present h w)) h') = job_id (objs w h')"
  by (simp add: present_def Let_def emit_def job_update_job_id)

lemma error_job_id: "job_id (objs (snd (error h w)) h') = job_id (objs w h')"
  by (simp add: error_def Let_def emit_def job_update_job_id)

lemma for_jobs_invariant:
  assumes pres: "\<And>h v. P v \<Longrightarrow> P (snd (present h v))"
    and err: "\<And>h v. P v \<Longrightarrow> P (snd (error h v))"
  shows "P w \<Longrightarrow> P (snd (for_jobs i jobs errs w))"
proof (induction i jobs errs w rule: for_jobs.induct)
  case (1 i jobs errs w)
  show ?case
  proof (cases "i < length jobs")
    case False
    then show ?thesis using "1.prems" by (subst for_jobs.simps) simp
  next
    case True
    let ?job = "jobs ! i"
    let ?pw = "present ?job w"
    let ?jobs1 = "if \<not> fst ?pw then remove1 ?job jobs else jobs"
    let ?ew = "error ?job (snd ?pw)"
    have base: "P (snd ?ew)"
      using "1.prems" by (intro err pres)
    show ?thesis
    proof (cases "fst ?ew")
      case False
      have "for_jobs i jobs errs w = for_jobs (Suc i) ?jobs1 errs (snd ?ew)"
        using True False by (subst for_jobs.simps) (simp add: Let_def)
      moreover have "P (snd (for_jobs (Suc i) ?jobs1 errs (snd ?ew)))"
        using "1.IH"(2) [OF True refl refl refl refl False base] .
      ultimately show ?thesis by simp
    next
      case e: True
      show ?thesis
      proof (cases "pop i ?jobs1")
        case (Inl x)
        have "for_jobs i jobs errs w = (Inl x, snd ?ew)"
          using True e Inl by (subst for_jobs.simps) (simp add: Let_def)
        then show ?thesis using base by simp
      next
        case (Inr p)
        obtain j jobs2 where p: "p = (j, jobs2)" by (cases p)
        have "for_jobs i jobs errs w = for_jobs (Suc i) jobs2 (errs @ [j]) (snd ?ew)"
          using True e Inr p by (subst for_jobs.simps) (simp add: Let_def)
        moreover have "P (snd (for_jobs (Suc i) jobs2 (errs @ [j]) (snd ?ew)))"
          using "1.IH"(1) [OF True refl refl refl refl e Inr p [symmetric] base] .
        ultimately show ?thesis by simp
      qed
    qed
  qed
qed

lemma for_jobs_empty: "for_jobs 0 [] errs w = (Inr ([], errs), w)"
  by (subst for_jobs.simps) simp

lemma while_jobs_invariant:
  assumes pres: "\<And>h v. P v \<Longrightarrow> P (snd (present h v))"
    and err: "\<And>h v. P v \<Longrightarrow> P (snd (error h v))"
    and slp: "\<And>n v. P v \<Longrightarrow> P (sleep n v)"
  shows "P w \<Longrightarrow> while_jobs fuel n jobs errs w = Some (r, w') \<Longrightarrow> P w'"
proof (induction fuel arbitrary: n jobs errs w)
  case 0
  then show ?case by simp
next
  case (Suc fuel)
  show ?case
  proof (cases "0 < n")
    case False
    then show ?thesis using Suc.prems by simp
  next
    case True
    obtain res w1 where f: "for_jobs 0 jobs errs w = (res, w1)"
      by (cases "for_jobs 0 jobs errs w")
    have w1: "P w1"
      using for_jobs_invariant [of P w 0 jobs errs, OF pres err Suc.prems(1)] f by simp
    show ?thesis
    proof (cases res)
      case (Inl x)
      then show ?thesis using Suc.prems(2) True f w1 by (simp add: Let_def)
    next
      case (Inr p)
      obtain jobs1 errs1 where p: "p = (jobs1, errs1)" by (cases p)
      have "while_jobs fuel (if n \<noteq> length jobs then length jobs else n) jobs1 errs1 (sleep 5 w1) = Some (r, w')"
        using Suc.prems(2) True f Inr p by (simp add: Let_def)
      then show ?thesis using Suc.IH [OF slp [OF w1]] by blast
    qed
  qed
qed

lemma while_jobs_emptied:
  "while_jobs fuel n jobs errs w = Some (Inr (js, es), w') \<Longrightarrow> (n = 0 \<longrightarrow> jobs = []) \<Longrightarrow> js = []"
proof (induction fuel arbitrary: n jobs errs w)
  case 0
  then show ?case by simp
next
  case (Suc fuel)
  show ?case
  proof (cases "0 < n")
    case False
    then show ?thesis using Suc.prems by simp
  next
    case True
    obtain res w1 where f: "for_jobs 0 jobs errs w = (res, w1)"
      by (cases "for_jobs 0 jobs errs w")
    show ?thesis
    proof (cases res)
      case (Inl x)
      then show ?thesis using Suc.prems(1) True f by (simp add: Let_def)
    next
      case (Inr p)
      obtain jobs1 errs1 where p: "p = (jobs1, errs1)" by (cases p)
      let ?n1 = "if n \<noteq> length jobs then length jobs else n"
      have run: "while_jobs fuel ?n1 jobs1 errs1 (sleep 5 w1) = Some (Inr (js, es), w')"
        using Suc.prems(1) True f Inr p by (simp add: Let_def)
      have "?n1 = length jobs" by simp
      moreover have "jobs = [] \<longrightarrow> jobs1 = []"
        using f Inr p by (auto simp: for_jobs_empty)
      ultimately have inv: "?n1 = 0 \<longrightarrow> jobs1 = []" by simp
      show ?thesis by (rule Suc.IH [OF run inv])
    qed
  qed
qed


lemma while_jobs_job_ids:
  assumes "while_jobs fuel n jobs errs w = Some (r, w')"
  shows "job_id (objs w' h) = job_id (objs w h)"
proof -
  have "\<forall>h. job_id (objs w' h) = job_id (objs w h)"
  proof (rule while_jobs_invariant [where P = "\<lambda>v. \<forall>h. job_id (objs v h) = job_id (objs w h)", OF _ _ _ _ assms])
    show "\<forall>h. job_id (objs w h) = job_id (objs w h)" by simp
  qed (simp_all add: present_job_id error_job_id sleep_def emit_def)
  then show ?thesis by simp
qed



text \<open>
  C1 fails: removing a job from the list while the loop walks it makes the loop pass
  over the job that follows. With the jobs 7 and 8 in the list, 7 gone from the queue and
  8 running, one pass of the loop calls \<^verbatim>\<open>present()\<close> and \<^verbatim>\<open>error()\<close> on job 7
  only; job 8 is still in the list afterwards and was not looked at.
\<close>

theorem skipped_after_removal:
  "fst (for_jobs 0 [0, 1] [] (initial_world (\<lambda>k. ''8 r x'') two_jobs)) = Inr ([1], [])
   \<and> trace (snd (for_jobs 0 [0, 1] [] (initial_world (\<lambda>k. ''8 r x'') two_jobs)))
       = [CallPresent 0 False, CallError 0 False]"
  by code_simp

text \<open>
  Whatever \<^verbatim>\<open>present()\<close> returns for the job that a pass is at, the next call of the
  pass is \<^verbatim>\<open>error()\<close> on the same job.
\<close>

lemma for_jobs_trace_grows: "\<exists>es. trace (snd (for_jobs i jobs errs w)) = trace w @ es"
proof -
  have "\<exists>es. trace (snd (for_jobs i jobs errs w)) = trace w @ es"
  proof (rule for_jobs_invariant [where P = "\<lambda>v. \<exists>es. trace v = trace w @ es"])
    show "\<exists>es. trace w = trace w @ es" by simp
  qed (auto simp: present_trace error_trace)
  then show ?thesis .
qed

lemma for_jobs_checks_both:
  assumes "i < length jobs"
  shows "\<exists>b e es. trace (snd (for_jobs i jobs errs w)) =
     trace w @ [CallPresent (jobs ! i) b, CallError (jobs ! i) e] @ es"
proof -
  let ?job = "jobs ! i"
  let ?pw = "present ?job w"
  let ?jobs1 = "if \<not> fst ?pw then remove1 ?job jobs else jobs"
  let ?ew = "error ?job (snd ?pw)"
  have t: "trace (snd ?ew) = trace w @ [CallPresent ?job (fst ?pw), CallError ?job (fst ?ew)]"
    by (simp add: present_trace error_trace)
  have "\<exists>es. trace (snd (for_jobs i jobs errs w)) = trace (snd ?ew) @ es"
  proof (cases "fst ?ew")
    case False
    have "for_jobs i jobs errs w = for_jobs (Suc i) ?jobs1 errs (snd ?ew)"
      using assms False by (subst for_jobs.simps) (simp add: Let_def)
    then show ?thesis using for_jobs_trace_grows [of "Suc i" ?jobs1 errs "snd ?ew"] by simp
  next
    case e: True
    show ?thesis
    proof (cases "pop i ?jobs1")
      case (Inl x)
      have "for_jobs i jobs errs w = (Inl x, snd ?ew)"
        using assms e Inl by (subst for_jobs.simps) (simp add: Let_def)
      then show ?thesis by simp
    next
      case (Inr p)
      obtain j jobs2 where p: "p = (j, jobs2)" by (cases p)
      have "for_jobs i jobs errs w = for_jobs (Suc i) jobs2 (errs @ [j]) (snd ?ew)"
        using assms e Inr p by (subst for_jobs.simps) (simp add: Let_def)
      then show ?thesis using for_jobs_trace_grows [of "Suc i" jobs2 "errs @ [j]" "snd ?ew"] by simp
    qed
  qed
  then obtain es where "trace (snd (for_jobs i jobs errs w)) = trace (snd ?ew) @ es" by blast
  then have "trace (snd (for_jobs i jobs errs w)) =
      trace w @ [CallPresent ?job (fst ?pw), CallError ?job (fst ?ew)] @ es"
    using t by simp
  then show ?thesis by blast
qed

text \<open>
  C2 fails: the test of \<^verbatim>\<open>job.error()\<close> is a second \<^verbatim>\<open>if\<close>, not an \<^verbatim>\<open>elif\<close>, so
  a job that \<^verbatim>\<open>present()\<close> found absent, and that was removed, has its error check in
  the same pass.
\<close>

theorem error_checked_when_absent:
  "fst (for_jobs 0 [0] [] (initial_world (\<lambda>k. ''8 qw x'') two_jobs)) = Inr ([], [])
   \<and> trace (snd (for_jobs 0 [0] [] (initial_world (\<lambda>k. ''8 qw x'') two_jobs)))
       = [CallPresent 0 False, CallError 0 False]"
  by code_simp

text \<open>
  C3 fails for the same reason: when the error check of a job that has just been
  removed returns true, \<^verbatim>\<open>jobs.pop(i)\<close> takes the job that has moved to its place.
  Job 7 is missing from the first listing and in \<^verbatim>\<open>Eqw\<close> in the later ones, job 8 is
  running all along: job 8 goes to \<^verbatim>\<open>err_jobs\<close> and is the one deleted with
  \<^verbatim>\<open>qdel\<close>, though neither method was ever called on it.
\<close>

theorem wrong_job_moved:
  "map_option fst (monitor_jobs 3 (PyList [0, 1]) True
      (initial_world (\<lambda>k. if k = 0 then ''8 r x'' else ''7 Eqw x'' @ [newline] @ ''8 r x'') two_jobs))
     = Some (Inr (Finished [] [1]))
   \<and> map_option (trace \<circ> snd) (monitor_jobs 3 (PyList [0, 1]) True
      (initial_world (\<lambda>k. if k = 0 then ''8 r x'' else ''7 Eqw x'' @ [newline] @ ''8 r x'') two_jobs))
     = Some [CallPresent 0 False, CallError 0 True, Sleep 5, Sleep 5,
             LogErrorJobs [''8''], RunCommand ''qdel 8'']"
  by code_simp



text \<open>
  An argument that is no list, or the empty list, never makes \<^verbatim>\<open>monitor_jobs\<close> ask the
  scheduler or run a command; \<^verbatim>\<open>None\<close>, an empty list, a tuple, a text and the number
  0 are reported and returned from.
\<close>

lemma monitor_jobs_invalid:
  assumes "jobs = PyList [] \<or> (\<forall>xs. jobs \<noteq> PyList xs)"
  shows "\<exists>r w'. monitor_jobs fuel jobs kill_err w = Some (r, w')
     \<and> clock w' = clock w \<and> commands (trace w') = commands (trace w)"
  using assms
  by (cases jobs) (auto simp: monitor_jobs_def emit_def commands_append)

lemma monitor_jobs_rejected:
  assumes "jobs = PyNone \<or> jobs = PyList [] \<or> jobs = PyTuple xs \<or> jobs = PyStr t \<or> jobs = PyInt 0"
  shows "\<exists>msg. monitor_jobs fuel jobs kill_err w = Some (Inr Rejected, emit (LogError msg) w)"
  using assms by (auto simp: monitor_jobs_def)

text \<open>
  C9 fails for an argument that is true and has no length, such as a single job that
  was not put into a list: \<^verbatim>\<open>len(jobs)\<close> raises \<^verbatim>\<open>TypeError\<close> before the test
  \<^verbatim>\<open>isinstance(jobs, list)\<close> is reached, so nothing is reported and the call does not
  return. The scheduler is not asked and no command is run.
\<close>

theorem monitor_single_job_raises:
  "monitor_jobs fuel (PyJob h) kill_err w = Some (Inl TypeError, w)"
  by (simp add: monitor_jobs_def)

text \<open>
  The jobs of the list are accounted for: through a pass, and through the loop, a job
  leaves the list only for \<^verbatim>\<open>err_jobs\<close> or after \<^verbatim>\<open>present()\<close> has returned false
  in that pass.
\<close>

lemma absent_handles_append: "absent_handles (xs @ ys) = absent_handles xs @ absent_handles ys"
  by (induction xs rule: absent_handles.induct) auto

lemma present_absent:
  "mset (absent_handles (trace (snd (present h w)))) =
     mset (absent_handles (trace w)) + (if fst (present h w) then {#} else {#h#})"
  by (simp add: present_trace absent_handles_append)

lemma error_absent: "absent_handles (trace (snd (error h w))) = absent_handles (trace w)"
  by (simp add: error_trace absent_handles_append)

lemma pop_mset: "pop i xs = Inr (j, ys) \<Longrightarrow> mset xs = mset ys + {#j#}"
proof -
  assume p: "pop i xs = Inr (j, ys)"
  then have i: "i < length xs" and j: "j = xs ! i" and ys: "ys = take i xs @ drop (Suc i) xs"
    by (auto simp: pop_def split: if_splits)
  have "xs = take i xs @ (xs ! i) # drop (Suc i) xs"
    using i by (simp add: id_take_nth_drop)
  then have "mset xs = mset (take i xs @ (xs ! i) # drop (Suc i) xs)" by simp
  then show ?thesis using j ys by simp
qed

lemma for_jobs_accounts:
  "fst (for_jobs i jobs errs w) = Inr (js, es) \<Longrightarrow>
     mset js + mset es + mset (absent_handles (trace (snd (for_jobs i jobs errs w)))) =
     mset jobs + mset errs + mset (absent_handles (trace w))"
proof (induction i jobs errs w rule: for_jobs.induct)
  case (1 i jobs errs w)
  show ?case
  proof (cases "i < length jobs")
    case False
    then have "for_jobs i jobs errs w = (Inr (jobs, errs), w)"
      by (subst for_jobs.simps) simp
    then show ?thesis using "1.prems" by simp
  next
    case True
    let ?job = "jobs ! i"
    let ?pw = "present ?job w"
    let ?jobs1 = "if \<not> fst ?pw then remove1 ?job jobs else jobs"
    let ?ew = "error ?job (snd ?pw)"
    have mem: "?job \<in># mset jobs" using True by simp
    have base: "mset ?jobs1 + mset (absent_handles (trace (snd ?ew))) =
        mset jobs + mset (absent_handles (trace w))"
      using mem by (simp add: error_absent present_absent)
    show ?thesis
    proof (cases "fst ?ew")
      case False
      have eq: "for_jobs i jobs errs w = for_jobs (Suc i) ?jobs1 errs (snd ?ew)"
        using True False by (subst for_jobs.simps) (simp add: Let_def)
      then have "fst (for_jobs (Suc i) ?jobs1 errs (snd ?ew)) = Inr (js, es)"
        using "1.prems" by simp
      then have "mset js + mset es + mset (absent_handles (trace (snd (for_jobs (Suc i) ?jobs1 errs (snd ?ew))))) =
          mset ?jobs1 + mset errs + mset (absent_handles (trace (snd ?ew)))"
        by (rule "1.IH"(2) [OF True refl refl refl refl False])
      then show ?thesis using eq base by (simp add: ac_simps)
    next
      case e: True
      show ?thesis
      proof (cases "pop i ?jobs1")
        case (Inl x)
        have "for_jobs i jobs errs w = (Inl x, snd ?ew)"
          using True e Inl by (subst for_jobs.simps) (simp add: Let_def)
        then show ?thesis using "1.prems" by simp
      next
        case (Inr p)
        obtain j jobs2 where p: "p = (j, jobs2)" by (cases p)
        have eq: "for_jobs i jobs errs w = for_jobs (Suc i) jobs2 (errs @ [j]) (snd ?ew)"
          using True e Inr p by (subst for_jobs.simps) (simp add: Let_def)
        then have "fst (for_jobs (Suc i) jobs2 (errs @ [j]) (snd ?ew)) = Inr (js, es)"
          using "1.prems" by simp
        then have ih: "mset js + mset es + mset (absent_handles (trace (snd (for_jobs (Suc i) jobs2 (errs @ [j]) (snd ?ew))))) =
            mset jobs2 + mset (errs @ [j]) + mset (absent_handles (trace (snd ?ew)))"
          by (rule "1.IH"(1) [OF True refl refl refl refl e Inr p [symmetric]])
        have "mset ?jobs1 = mset jobs2 + {#j#}"
          using Inr p by (intro pop_mset [of i]) simp
        then show ?thesis using eq ih base by (simp add: ac_simps)
      qed
    qed
  qed
qed

lemma while_jobs_accounts:
  "while_jobs fuel n jobs errs w = Some (Inr (js, es), w') \<Longrightarrow>
     mset js + mset es + mset (absent_handles (trace w')) =
     mset jobs + mset errs + mset (absent_handles (trace w))"
proof (induction fuel arbitrary: n jobs errs w)
  case 0
  then show ?case by simp
next
  case (Suc fuel)
  show ?case
  proof (cases "0 < n")
    case False
    then show ?thesis using Suc.prems by simp
  next
    case True
    obtain res w1 where f: "for_jobs 0 jobs errs w = (res, w1)"
      by (cases "for_jobs 0 jobs errs w")
    show ?thesis
    proof (cases res)
      case (Inl x)
      then show ?thesis using Suc.prems True f by (simp add: Let_def)
    next
      case (Inr p)
      obtain jobs1 errs1 where p: "p = (jobs1, errs1)" by (cases p)
      let ?n1 = "if n \<noteq> length jobs then length jobs else n"
      have run: "while_jobs fuel ?n1 jobs1 errs1 (sleep 5 w1) = Some (Inr (js, es), w')"
        using Suc.prems True f Inr p by (simp add: Let_def)
      have "fst (for_jobs 0 jobs errs w) = Inr (jobs1, errs1)" using f Inr p by simp
      then have one: "mset jobs1 + mset errs1 + mset (absent_handles (trace w1)) =
          mset jobs + mset errs + mset (absent_handles (trace w))"
        using for_jobs_accounts [of 0 jobs errs w jobs1 errs1] f by simp
      have "absent_handles (trace (sleep 5 w1)) = absent_handles (trace w1)"
        by (simp add: sleep_def emit_def absent_handles_append)
      then show ?thesis using Suc.IH [OF run] one by simp
    qed
  qed
qed

lemma kill_jobs_absent: "absent_handles (trace (kill_jobs errs kill_err w)) = absent_handles (trace w)"
  by (simp add: kill_jobs_def emit_def Let_def absent_handles_append)

text \<open>
  C10. When \<^verbatim>\<open>monitor_jobs\<close>, called with a list, returns at its end, the list was not
  empty at the call and is empty now, and the jobs it held at the call are, each as many
  times as it was in the list, the jobs now in \<^verbatim>\<open>err_jobs\<close> and the jobs that
  \<^verbatim>\<open>present()\<close> found absent during the call.
\<close>

theorem callers_list_emptied:
  assumes "monitor_jobs fuel (PyList xs) kill_err w = Some (Inr (Finished js errs), w')"
  shows "js = [] \<and> xs \<noteq> []
    \<and> mset errs + mset (absent_handles (trace w')) = mset xs + mset (absent_handles (trace w))"
proof -
  from assms obtain w1 where run: "while_jobs fuel (length xs) xs [] w = Some (Inr (js, errs), w1)"
    and ne: "xs \<noteq> []" and w': "w' = kill_jobs errs kill_err w1"
    by (auto simp: monitor_jobs_def split: if_splits sum.splits option.splits prod.splits)
  have js: "js = []" using while_jobs_emptied [OF run] by simp
  have "mset js + mset errs + mset (absent_handles (trace w1)) =
      mset xs + mset [] + mset (absent_handles (trace w))"
    by (rule while_jobs_accounts [OF run])
  then show ?thesis using js ne by (simp add: w' kill_jobs_absent)
qed

text \<open>
  A run that C10 speaks of: job 7 is in \<^verbatim>\<open>Eqw\<close> in every listing and job 8 is in
  none. Job 7 is moved to \<^verbatim>\<open>err_jobs\<close> in the first pass and job 8 is found absent
  in the second.
\<close>

theorem callers_list_emptied_witness:
  "map_option fst (monitor_jobs 4 (PyList [0, 1]) True (initial_world (\<lambda>k. ''7 Eqw x'') two_jobs))
     = Some (Inr (Finished [] [0]))
   \<and> [0 :: nat, 1] \<noteq> []
   \<and> mset (absent_handles (trace (snd (the (monitor_jobs 4 (PyList [0, 1]) True
          (initial_world (\<lambda>k. ''7 Eqw x'') two_jobs)))))) = {#1#}"
proof -
  let ?r = "monitor_jobs 4 (PyList [0, 1]) True (initial_world (\<lambda>k. ''7 Eqw x'') two_jobs)"
  have h: "map_option fst ?r = Some (Inr (Finished [] [0]))"
    by code_simp
  then have run: "?r = Some (Inr (Finished [] [0]), snd (the ?r))"
    by (cases ?r) auto
  have "mset [0] + mset (absent_handles (trace (snd (the ?r)))) =
      mset [0, 1] + mset (absent_handles (trace (initial_world (\<lambda>k. ''7 Eqw x'') two_jobs)))"
    using callers_list_emptied [OF run] by blast
  then have "mset (absent_handles (trace (snd (the ?r)))) = {#1#}"
    by (simp add: initial_world_def)
  then show ?thesis using h by simp
qed

end
